theory Spec2Isabelle
  imports Main "HOL-Library.AList"
begin

section \<open>The simple graph of \<^verbatim>\<open>simple_graph.py\<close>\<close>

text \<open>
  The class \<^verbatim>\<open>Graph\<close> owns one field, \<^verbatim>\<open>self._nodes\<close>: a dictionary from a node to
  the list of its successors. A Python dictionary iterates in insertion order and
  \<^verbatim>\<open>nodes()\<close> and \<^verbatim>\<open>edges()\<close> expose that order, so the dictionary is an association
  list: one pair per key, in insertion order.

  Every method is a function from the graph before the call (and the arguments) to the
  outcome of the call and the graph after it. A raised exception is the \<open>Inl\<close> of the
  outcome, and the graph after a raise is the graph as the method left it at the
  \<^verbatim>\<open>raise\<close>.
\<close>

datatype error = ValueError | KeyError

type_synonym 'a graph = "('a \<times> 'a list) list"

subsection \<open>The dictionary operations the methods use\<close>

text \<open>\<^verbatim>\<open>self._nodes.keys()\<close>, also what iterating \<^verbatim>\<open>self._nodes\<close> yields.\<close>

definition keys :: "'a graph \<Rightarrow> 'a list" where
  "keys g = map fst g"

text \<open>\<^verbatim>\<open>self._nodes[k]\<close> as an expression: a \<^verbatim>\<open>KeyError\<close> when \<open>k\<close> is no key.\<close>

definition getitem :: "'a graph \<Rightarrow> 'a \<Rightarrow> error + 'a list" where
  "getitem g k = (case map_of g k of None \<Rightarrow> Inl KeyError | Some v \<Rightarrow> Inr v)"

text \<open>
  \<^verbatim>\<open>self._nodes[k] = v\<close>, and a mutation in place of the list stored under \<open>k\<close>: a key
  that is present keeps its position, a new key goes to the end.
\<close>

definition setitem :: "'a graph \<Rightarrow> 'a \<Rightarrow> 'a list \<Rightarrow> 'a graph" where
  "setitem g k v = AList.update k v g"

text \<open>\<^verbatim>\<open>self._nodes.setdefault(k, v)\<close>: stores \<open>v\<close> only when \<open>k\<close> is no key.\<close>

definition setdefault :: "'a graph \<Rightarrow> 'a \<Rightarrow> 'a list \<Rightarrow> 'a graph" where
  "setdefault g k v = (if k \<in> set (keys g) then g else g @ [(k, v)])"

text \<open>\<^verbatim>\<open>del self._nodes[k]\<close>, for a key that is present.\<close>

definition delitem :: "'a graph \<Rightarrow> 'a \<Rightarrow> 'a graph" where
  "delitem g k = AList.delete k g"

text \<open>\<^verbatim>\<open>Graph()\<close>: the constructor sets \<^verbatim>\<open>self._nodes = {}\<close>.\<close>

definition init :: "'a graph" where
  "init = []"

subsection \<open>Queries and mutations\<close>

definition nodes :: "'a graph \<Rightarrow> 'a list \<times> 'a graph" where
  "nodes g = (keys g, g)"

text \<open>
  \<^verbatim>\<open>edges()\<close>: the test \<^verbatim>\<open>if self.nodes:\<close> is on a bound method, which is always true, so
  the two loops always run.
\<close>

definition edges :: "'a graph \<Rightarrow> ('a \<times> 'a) list \<times> 'a graph" where
  "edges g =
     (concat (map (\<lambda>start. case getitem g start of
                              Inl e \<Rightarrow> []
                            | Inr ends \<Rightarrow> map (Pair start) ends) (keys g)), g)"

definition add_node :: "'a graph \<Rightarrow> 'a \<Rightarrow> (error + unit) \<times> 'a graph" where
  "add_node g node =
     (if node \<in> set (keys g) then (Inl ValueError, g)
      else (Inr (), setitem g node []))"

text \<open>
  \<^verbatim>\<open>add_edge\<close> runs its two \<^verbatim>\<open>setdefault\<close> calls first and tests for the edge after
  them, so the graph at its \<^verbatim>\<open>raise\<close> is the graph after both calls.
\<close>

definition add_edge :: "'a graph \<Rightarrow> 'a \<Rightarrow> 'a \<Rightarrow> (error + unit) \<times> 'a graph" where
  "add_edge g n1 n2 =
     (let g1 = setdefault g n1 [];
          g2 = setdefault g1 n2 []
      in case getitem g2 n1 of
           Inl e \<Rightarrow> (Inl e, g2)
         | Inr succs \<Rightarrow>
             if n2 \<notin> set succs then (Inr (), setitem g2 n1 (succs @ [n2]))
             else (Inl ValueError, g2))"

definition del_node :: "'a graph \<Rightarrow> 'a \<Rightarrow> (error + unit) \<times> 'a graph" where
  "del_node g node =
     (if node \<in> set (keys g) then (Inr (), delitem g node)
      else (Inl ValueError, g))"

text \<open>\<^verbatim>\<open>list.remove\<close> takes out the first occurrence.\<close>

definition del_edge :: "'a graph \<Rightarrow> 'a \<Rightarrow> 'a \<Rightarrow> (error + unit) \<times> 'a graph" where
  "del_edge g n1 n2 =
     (if n1 \<in> set (keys g) then
        (case getitem g n1 of
           Inl e \<Rightarrow> (Inl e, g)
         | Inr succs \<Rightarrow>
             if n2 \<in> set succs then (Inr (), setitem g n1 (remove1 n2 succs))
             else (Inl ValueError, g))
      else (Inl ValueError, g))"

definition has_node :: "'a graph \<Rightarrow> 'a \<Rightarrow> bool \<times> 'a graph" where
  "has_node g node = (node \<in> set (keys g), g)"

definition neighbors :: "'a graph \<Rightarrow> 'a \<Rightarrow> (error + 'a list) \<times> 'a graph" where
  "neighbors g node =
     (if node \<in> set (keys g) then (getitem g node, g)
      else (Inl ValueError, g))"

text \<open>
  \<^verbatim>\<open>adjacent\<close>: the \<^verbatim>\<open>or\<close> of the guard is short-circuit, so \<^verbatim>\<open>has_node(n2)\<close> runs only
  when \<^verbatim>\<open>has_node(n1)\<close> is true.
\<close>

definition adjacent :: "'a graph \<Rightarrow> 'a \<Rightarrow> 'a \<Rightarrow> (error + bool) \<times> 'a graph" where
  "adjacent g n1 n2 =
     (let (h1, g1) = has_node g n1 in
      if \<not> h1 then (Inl KeyError, g1)
      else let (h2, g2) = has_node g1 n2 in
        if \<not> h2 then (Inl KeyError, g2)
        else (case getitem g2 n1 of
                Inl e \<Rightarrow> (Inl e, g2)
              | Inr succs \<Rightarrow> if n2 \<in> set succs then (Inr True, g2) else (Inr False, g2)))"

subsection \<open>Depth-first traversal\<close>

text \<open>
  \<^verbatim>\<open>depth_first_traversal(start, prev)\<close> shares the one list \<^verbatim>\<open>prev\<close> between all the
  recursive calls and appends to it in place, so \<open>dfs\<close> takes \<open>prev\<close> and returns it
  as the call left it, also at a \<^verbatim>\<open>raise\<close>. \<open>dfs_for\<close> is the \<^verbatim>\<open>for node in nodes\<close> loop
  with its accumulator \<^verbatim>\<open>path_list\<close>; the list it runs over is called \<open>succs\<close> here,
  \<open>nodes\<close> being the query. Neither writes to \<^verbatim>\<open>self._nodes\<close> or to a list stored in
  it: \<^verbatim>\<open>path_list\<close> and \<^verbatim>\<open>prev\<close> are lists made by the call itself.
\<close>

function dfs :: "'a graph \<Rightarrow> 'a \<Rightarrow> 'a list \<Rightarrow> (error + 'a list) \<times> 'a list"
  and dfs_for :: "'a graph \<Rightarrow> 'a list \<Rightarrow> 'a list \<Rightarrow> 'a list \<Rightarrow> (error + 'a list) \<times> 'a list"
where
  "dfs g start prev =
     (if start \<notin> set (keys g) then (Inl KeyError, prev)
      else if start \<in> set prev then (Inr [], prev)
      else (case getitem g start of
              Inl e \<Rightarrow> (Inl e, prev)
            | Inr succs \<Rightarrow> dfs_for g succs [start] (prev @ [start])))"
| "dfs_for g [] path_list prev = (Inr path_list, prev)"
| "dfs_for g (node # succs) path_list prev =
     (case dfs g node prev of
        (Inl e, prev') \<Rightarrow> (Inl e, prev')
      | (Inr p, prev') \<Rightarrow> dfs_for g succs (path_list @ p) prev')"
  by pat_completeness auto

text \<open>
  The method as a caller uses it: \<^verbatim>\<open>prev\<close> is left out, so it is \<^verbatim>\<open>None\<close> and the call
  starts from a new empty list.
\<close>

definition depth_first_traversal :: "'a graph \<Rightarrow> 'a \<Rightarrow> (error + 'a list) \<times> 'a graph" where
  "depth_first_traversal g start = (fst (dfs g start []), g)"

subsection \<open>Breadth-first traversal\<close>

text \<open>
  The two nested loops that collect \<^verbatim>\<open>children\<close>. The test \<^verbatim>\<open>edge not in path_list\<close>
  reads \<^verbatim>\<open>path_list\<close>, which the loops do not change: \<^verbatim>\<open>children\<close> is added to it only
  after them. \<^verbatim>\<open>self._nodes[item]\<close> raises \<^verbatim>\<open>KeyError\<close> for an \<open>item\<close> that is no key.
\<close>

fun bfs_children :: "'a graph \<Rightarrow> 'a list \<Rightarrow> 'a list \<Rightarrow> 'a list \<Rightarrow> error + 'a list" where
  "bfs_children g [] path_list children = Inr children"
| "bfs_children g (item # parent) path_list children =
     (case getitem g item of
        Inl e \<Rightarrow> Inl e
      | Inr es \<Rightarrow>
          bfs_children g parent path_list
            (children @ filter (\<lambda>edge. edge \<notin> set path_list) es))"

text \<open>The nodes that occur in some successor list.\<close>

definition succ_nodes :: "'a graph \<Rightarrow> 'a set" where
  "succ_nodes g = (\<Union>p \<in> set g. set (snd p))"

text \<open>
  \<^verbatim>\<open>breadth_first_traversal(parent, path_list)\<close> when \<^verbatim>\<open>parent\<close> is a list: the branch the
  method takes in its own recursive calls.
\<close>

function breadth_first_layers :: "'a graph \<Rightarrow> 'a list \<Rightarrow> 'a list \<Rightarrow> error + 'a list" where
  "breadth_first_layers g parent path_list =
     (case bfs_children g parent path_list [] of
        Inl e \<Rightarrow> Inl e
      | Inr children \<Rightarrow>
          if length children = 0 then Inr (path_list @ children)
          else breadth_first_layers g children (path_list @ children))"
  by pat_completeness auto

text \<open>
  The method as a caller uses it, with one start node: \<^verbatim>\<open>path_list\<close> is a new list, the
  node is appended to it and becomes the one-element first layer.
\<close>

definition breadth_first_traversal :: "'a graph \<Rightarrow> 'a \<Rightarrow> (error + 'a list) \<times> 'a graph" where
  "breadth_first_traversal g parent = (breadth_first_layers g [parent] [parent], g)"

subsection \<open>Graph states\<close>

text \<open>
  Referential integrity: every node of a successor list is a key of the dictionary.
\<close>

definition referential_integrity :: "'a graph \<Rightarrow> bool" where
  "referential_integrity g = (succ_nodes g \<subseteq> set (keys g))"

text \<open>
  A call of one of the four mutating methods, and the graph it leaves, whether it
  returns or raises; \<open>run\<close> makes a sequence of such calls.
\<close>

datatype 'a mutation =
    Add_node 'a
  | Add_edge 'a 'a
  | Del_node 'a
  | Del_edge 'a 'a

fun mutate :: "'a graph \<Rightarrow> 'a mutation \<Rightarrow> 'a graph" where
  "mutate g (Add_node n) = snd (add_node g n)"
| "mutate g (Add_edge n1 n2) = snd (add_edge g n1 n2)"
| "mutate g (Del_node n) = snd (del_node g n)"
| "mutate g (Del_edge n1 n2) = snd (del_edge g n1 n2)"

definition run :: "'a graph \<Rightarrow> 'a mutation list \<Rightarrow> 'a graph" where
  "run g ms = foldl mutate g ms"

text \<open>
  A sequence of calls in which every \<^verbatim>\<open>del_node(n)\<close> is made when no node that stays in
  the graph has \<open>n\<close> in its successor list.
\<close>

fun deletes_unreferenced :: "'a graph \<Rightarrow> 'a mutation list \<Rightarrow> bool" where
  "deletes_unreferenced g [] = True"
| "deletes_unreferenced g (m # ms) =
     ((case m of Del_node n \<Rightarrow> n \<notin> succ_nodes (mutate g m) | _ \<Rightarrow> True) \<and>
      deletes_unreferenced (mutate g m) ms)"

text \<open>
  The nodes a traversal from \<open>start\<close> can meet: \<open>start\<close> itself, and every successor of a
  node it can meet. \<open>reaches_only_keys\<close> says that all of them are keys of the dictionary.
\<close>

inductive reachable :: "'a graph \<Rightarrow> 'a \<Rightarrow> 'a \<Rightarrow> bool" for g :: "'a graph" and start :: 'a where
  reachable_start: "reachable g start start"
| reachable_step:
    "reachable g start a \<Longrightarrow> getitem g a = Inr succs \<Longrightarrow> b \<in> set succs \<Longrightarrow>
       reachable g start b"

definition reaches_only_keys :: "'a graph \<Rightarrow> 'a \<Rightarrow> bool" where
  "reaches_only_keys g start = (\<forall>n. reachable g start n \<longrightarrow> n \<in> set (keys g))"

section \<open>Facts about the dictionary operations\<close>

lemma getitem_absent: "k \<notin> set (keys g) \<Longrightarrow> getitem g k = Inl KeyError"
  by (simp add: getitem_def keys_def map_of_eq_None_iff split: option.splits)

lemma getitem_present: "k \<in> set (keys g) \<Longrightarrow> \<exists>v. getitem g k = Inr v"
  by (cases "map_of g k") (auto simp: getitem_def keys_def map_of_eq_None_iff)

lemma getitem_Inr_keys: "getitem g k = Inr v \<Longrightarrow> k \<in> set (keys g)"
  by (cases "k \<in> set (keys g)") (auto simp: getitem_absent)

lemma getitem_Inl: "getitem g k = Inl e \<Longrightarrow> e = KeyError \<and> k \<notin> set (keys g)"
  using getitem_present[of k g] by (auto simp: getitem_def split: option.splits)

lemma keys_setitem:
  "keys (setitem g k v) = (if k \<in> set (keys g) then keys g else keys g @ [k])"
  by (simp add: keys_def setitem_def update_keys)

lemma getitem_setitem:
  "getitem (setitem g k v) k' = (if k' = k then Inr v else getitem g k')"
  by (simp add: getitem_def setitem_def update_conv')

lemma keys_setdefault:
  "keys (setdefault g k v) = (if k \<in> set (keys g) then keys g else keys g @ [k])"
  by (simp add: keys_def setdefault_def)

lemma getitem_setdefault:
  "getitem (setdefault g k v) k' =
     (if k' = k \<and> k \<notin> set (keys g) then Inr v else getitem g k')"
proof (cases "k \<in> set (keys g)")
  case True
  then show ?thesis by (simp add: setdefault_def)
next
  case False
  then have "map_of g k = None"
    by (simp add: keys_def map_of_eq_None_iff)
  with False show ?thesis
    by (auto simp: getitem_def setdefault_def map_add_def split: option.splits)
qed

lemma keys_delitem: "keys (delitem g k) = removeAll k (keys g)"
  by (simp add: keys_def delitem_def delete_keys)

lemma getitem_delitem:
  "getitem (delitem g k) k' = (if k' = k then Inl KeyError else getitem g k')"
  by (simp add: getitem_def delitem_def delete_conv')

lemma distinct_setitem: "distinct (keys g) \<Longrightarrow> distinct (keys (setitem g k v))"
  by (simp add: keys_def setitem_def distinct_update)

lemma distinct_setdefault: "distinct (keys g) \<Longrightarrow> distinct (keys (setdefault g k v))"
  by (simp add: keys_def setdefault_def)

lemma distinct_delitem: "distinct (keys g) \<Longrightarrow> distinct (keys (delitem g k))"
  by (simp add: keys_def delitem_def distinct_delete)

lemma succ_nodes_setitem: "succ_nodes (setitem g k v) \<subseteq> succ_nodes g \<union> set v"
  unfolding setitem_def succ_nodes_def
  by (induction g) auto

lemma succ_nodes_setdefault_Nil: "succ_nodes (setdefault g k []) = succ_nodes g"
  by (simp add: setdefault_def succ_nodes_def)

lemma succ_nodes_delitem: "succ_nodes (delitem g k) \<subseteq> succ_nodes g"
  unfolding delitem_def succ_nodes_def
  by (induction g) auto

section \<open>Termination of the traversals\<close>

text \<open>
  The loop passes on the \<^verbatim>\<open>prev\<close> that the recursive call returns, so termination needs
  that a call never takes a node out of \<^verbatim>\<open>prev\<close>; this is proved first, on the domain of
  the function.
\<close>

lemma dfs_prev_mono_partial:
  "dfs_dfs_for_dom (Inl (g, start, prev)) \<Longrightarrow>
     set prev \<subseteq> set (snd (dfs g start prev))"
  "dfs_dfs_for_dom (Inr (g, succs, path_list, prev)) \<Longrightarrow>
     set prev \<subseteq> set (snd (dfs_for g succs path_list prev))"
proof (induction g start prev and g succs path_list prev rule: dfs_dfs_for.pinduct)
  case (1 g start prev)
  then show ?case
    by (auto simp: dfs.psimps split: sum.splits)
next
  case (2 g path_list prev)
  then show ?case by (simp add: dfs_for.psimps)
next
  case (3 g node succs path_list prev)
  obtain r prev' where r: "dfs g node prev = (r, prev')"
    by (cases "dfs g node prev")
  show ?case
  proof (cases r)
    case (Inl e)
    with r 3 show ?thesis by (simp add: dfs_for.psimps)
  next
    case (Inr p)
    with r 3 have "set prev \<subseteq> set prev'" by simp
    moreover from r Inr 3(3)[of r prev' p]
    have "set prev' \<subseteq> set (snd (dfs_for g succs (path_list @ p) prev'))" by simp
    ultimately show ?thesis using r Inr 3(1) by (simp add: dfs_for.psimps)
  qed
qed

text \<open>
  The measure: the number of keys not yet in \<^verbatim>\<open>prev\<close>, then the length of what is left of
  the loop.
\<close>

termination dfs
proof (relation "inv_image (measure (\<lambda>n. n) <*lex*> measure (\<lambda>n. n))
         (\<lambda>x. case x of
            Inl (g, s, prev) \<Rightarrow> (card (set (keys g) - set prev), 0)
          | Inr (g, ns, p, prev) \<Rightarrow> (card (set (keys g) - set prev), Suc (length ns)))",
       goal_cases)
  case 1
  show ?case by (intro wf_inv_image wf_lex_prod wf_measure)
next
  case (2 g start prev succs)
  have "card (set (keys g) - set (prev @ [start])) < card (set (keys g) - set prev)"
    using 2 by (intro psubset_card_mono) auto
  then show ?case by simp
next
  case (3 g node succs path_list prev)
  then show ?case by simp
next
  case (4 g node succs path_list prev x y p)
  then have "set prev \<subseteq> set y"
    using dfs_prev_mono_partial(1)[of g node prev] by (metis snd_conv)
  then have "card (set (keys g) - set y) \<le> card (set (keys g) - set prev)"
    by (intro card_mono) auto
  then show ?case by auto
qed

lemma getitem_succ_nodes: "getitem g k = Inr es \<Longrightarrow> set es \<subseteq> succ_nodes g"
  by (auto simp: getitem_def succ_nodes_def split: option.splits dest!: map_of_SomeD)

lemma bfs_children_subset:
  "bfs_children g parent path_list children = Inr cs \<Longrightarrow>
     set cs \<subseteq> set children \<union> (succ_nodes g - set path_list)"
proof (induction parent arbitrary: children)
  case Nil
  then show ?case by auto
next
  case (Cons item parent)
  then obtain es where es: "getitem g item = Inr es"
    by (cases "getitem g item") auto
  with Cons.prems have "bfs_children g parent path_list
      (children @ filter (\<lambda>edge. edge \<notin> set path_list) es) = Inr cs"
    by simp
  from Cons.IH[OF this] getitem_succ_nodes[OF es] show ?case by auto
qed

termination breadth_first_layers
proof (relation "measure (\<lambda>(g, parent, path_list). card (succ_nodes g - set path_list))",
       goal_cases)
  case 1
  show ?case by simp
next
  case (2 g parent path_list children)
  have fin: "finite (succ_nodes g - set path_list)"
    by (simp add: succ_nodes_def)
  from 2 obtain c where c: "c \<in> set children" by (cases children) auto
  from bfs_children_subset[OF 2(1)] have sub: "set children \<subseteq> succ_nodes g - set path_list"
    by simp
  have "succ_nodes g - set (path_list @ children) \<subset> succ_nodes g - set path_list"
    using c sub by auto
  from psubset_card_mono[OF fin this] show ?case by simp
qed

declare dfs.simps [simp del]

declare breadth_first_layers.simps [simp del]

section \<open>What a depth-first traversal visits\<close>

lemma dfs_visited:
  "distinct prev \<Longrightarrow>
     \<exists>v. snd (dfs g start prev) = prev @ v \<and> distinct (prev @ v) \<and>
         (fst (dfs g start prev) = Inr v \<or> fst (dfs g start prev) = Inl KeyError)"
  "distinct prev \<Longrightarrow>
     \<exists>v. snd (dfs_for g succs path_list prev) = prev @ v \<and> distinct (prev @ v) \<and>
         (fst (dfs_for g succs path_list prev) = Inr (path_list @ v) \<or>
          fst (dfs_for g succs path_list prev) = Inl KeyError)"
proof (induction g start prev and g succs path_list prev rule: dfs_dfs_for.induct)
  case (1 g start prev)
  show ?case
  proof (cases "start \<in> set (keys g) \<and> start \<notin> set prev")
    case False
    then have "dfs g start prev = (Inl KeyError, prev) \<or> dfs g start prev = (Inr [], prev)"
      by (simp add: dfs.simps)
    with 1(2) show ?thesis by (intro exI[of _ "[]"]) auto
  next
    case True
    then have "\<exists>v. getitem g start = Inr v"
      by (intro getitem_present) simp
    then obtain succs where succs: "getitem g start = Inr succs" ..
    from True 1(2) have "distinct (prev @ [start])" by simp
    from 1(1)[OF _ _ succs this] True
    obtain v where v: "snd (dfs_for g succs [start] (prev @ [start])) = (prev @ [start]) @ v"
      "distinct ((prev @ [start]) @ v)"
      "fst (dfs_for g succs [start] (prev @ [start])) = Inr ([start] @ v) \<or>
       fst (dfs_for g succs [start] (prev @ [start])) = Inl KeyError"
      by blast
    have eq: "dfs g start prev = dfs_for g succs [start] (prev @ [start])"
      using True succs by (simp add: dfs.simps)
    show ?thesis
      unfolding eq using v by (intro exI[of _ "start # v"]) simp
  qed
next
  case (2 g path_list prev)
  then show ?case by simp
next
  case (3 g node succs path_list prev)
  obtain r prev' where r: "dfs g node prev = (r, prev')"
    by (cases "dfs g node prev")
  from 3(1)[OF 3(3)] obtain v where "snd (dfs g node prev) = prev @ v" "distinct (prev @ v)"
    "fst (dfs g node prev) = Inr v \<or> fst (dfs g node prev) = Inl KeyError"
    by blast
  with r have v: "prev' = prev @ v" "distinct (prev @ v)" "r = Inr v \<or> r = Inl KeyError"
    by simp_all
  show ?case
  proof (cases r)
    case (Inl e)
    with r v have "dfs_for g (node # succs) path_list prev = (Inl KeyError, prev @ v)"
      by simp
    with v(2) show ?thesis by simp
  next
    case (Inr p)
    with v have pv: "p = v" by simp
    from 3(2)[OF r[symmetric] Inr] v(1,2)
    obtain w where w: "snd (dfs_for g succs (path_list @ p) prev') = prev' @ w"
      "distinct (prev' @ w)"
      "fst (dfs_for g succs (path_list @ p) prev') = Inr ((path_list @ p) @ w) \<or>
       fst (dfs_for g succs (path_list @ p) prev') = Inl KeyError"
      by blast
    have eq: "dfs_for g (node # succs) path_list prev = dfs_for g succs (path_list @ p) prev'"
      using r Inr by simp
    show ?thesis
      unfolding eq using w v(1) pv by (intro exI[of _ "v @ w"]) simp
  qed
qed



section \<open>Evaluating the methods on a concrete graph\<close>

text \<open>The defining equations that unfold a call on a graph written out as a list.\<close>

lemmas graph_eval =
  init_def keys_def getitem_def setitem_def setdefault_def delitem_def
  add_node_def add_edge_def del_node_def del_edge_def has_node_def adjacent_def
  depth_first_traversal_def breadth_first_traversal_def dfs.simps
  breadth_first_layers.simps run_def

section \<open>The claims\<close>

subsection \<open>C5: the branching graph\<close>

text \<open>
  C5. Starting from the empty graph, \<^verbatim>\<open>add_edge(1, 2)\<close>, \<^verbatim>\<open>add_edge(1, 3)\<close> and
  \<^verbatim>\<open>add_edge(2, 4)\<close> all return and build the graph \<open>1 \<rightarrow> 2, 1 \<rightarrow> 3, 2 \<rightarrow> 4\<close>; on it
  \<^verbatim>\<open>depth_first_traversal(1)\<close> returns exactly \<open>[1, 2, 4, 3]\<close> and
  \<^verbatim>\<open>breadth_first_traversal(1)\<close> returns exactly \<open>[1, 2, 3, 4]\<close>.
\<close>

theorem branching_graph_traversals:
  "add_edge init (1::nat) 2 = (Inr (), [(1, [2]), (2, [])]) \<and>
   add_edge [(1, [2]), (2, [])] (1::nat) 3 = (Inr (), [(1, [2, 3]), (2, []), (3, [])]) \<and>
   add_edge [(1, [2, 3]), (2, []), (3, [])] (2::nat) 4 =
     (Inr (), [(1, [2, 3]), (2, [4]), (3, []), (4, [])]) \<and>
   fst (depth_first_traversal [(1, [2, 3]), (2, [4]), (3, []), (4, [])] (1::nat)) =
     Inr [1, 2, 4, 3] \<and>
   fst (breadth_first_traversal [(1, [2, 3]), (2, [4]), (3, []), (4, [])] (1::nat)) =
     Inr [1, 2, 3, 4]"
  by (simp add: graph_eval)

subsection \<open>C8: \<^verbatim>\<open>adjacent\<close>\<close>

text \<open>
  C8. For every graph and nodes \<open>a\<close>, \<open>b\<close>: \<^verbatim>\<open>adjacent(a, b)\<close> raises \<^verbatim>\<open>KeyError\<close> when
  \<open>a\<close> or \<open>b\<close> is no key of the graph, also when \<open>b\<close> is in the successor list of \<open>a\<close>
  (the presence test comes first); when both are keys it returns whether \<open>b\<close> is in the
  successor list of \<open>a\<close>. The graph is left as it was.
\<close>

theorem adjacent_checks_presence_first:
  "(a \<notin> set (keys g) \<or> b \<notin> set (keys g) \<longrightarrow> adjacent g a b = (Inl KeyError, g)) \<and>
   (a \<in> set (keys g) \<and> b \<in> set (keys g) \<longrightarrow>
      (\<exists>succs. getitem g a = Inr succs \<and> adjacent g a b = (Inr (b \<in> set succs), g)))"
proof (intro conjI impI)
  assume "a \<notin> set (keys g) \<or> b \<notin> set (keys g)"
  then show "adjacent g a b = (Inl KeyError, g)"
    by (auto simp: adjacent_def has_node_def)
next
  assume pres: "a \<in> set (keys g) \<and> b \<in> set (keys g)"
  then have "\<exists>v. getitem g a = Inr v" by (intro getitem_present) simp
  then obtain succs where succs: "getitem g a = Inr succs" ..
  with pres have "adjacent g a b = (Inr (b \<in> set succs), g)"
    by (simp add: adjacent_def has_node_def)
  with succs show "\<exists>succs. getitem g a = Inr succs \<and> adjacent g a b = (Inr (b \<in> set succs), g)"
    by blast
qed

text \<open>
  On \<open>1 \<rightarrow> 2\<close> with both nodes present the answers are true and false; with node 2
  deleted, the edge still listed, the call raises.
\<close>

theorem adjacent_checks_presence_first_witness:
  "(1::nat) \<in> set (keys [(1, [2]), (2, [])]) \<and> (2::nat) \<in> set (keys [(1, [2]), (2, [])]) \<and>
   adjacent [(1, [2]), (2, [])] (1::nat) 2 = (Inr True, [(1, [2]), (2, [])]) \<and>
   adjacent [(1, [2]), (2, [])] (2::nat) 1 = (Inr False, [(1, [2]), (2, [])]) \<and>
   (2::nat) \<notin> set (keys [(1, [2])]) \<and>
   adjacent [(1, [2])] (1::nat) 2 = (Inl KeyError, [(1, [2])])"
  using adjacent_checks_presence_first [of 1 "[(1, [2]), (2, [])]" "2::nat"]
    adjacent_checks_presence_first [of 2 "[(1, [2]), (2, [])]" "1::nat"]
    adjacent_checks_presence_first [of 1 "[(1, [2])]" "2::nat"]
  by (simp add: graph_eval)

subsection \<open>C9: the queries and the traversals leave the graph alone\<close>

text \<open>
  C9. For every graph, the graph after \<^verbatim>\<open>nodes()\<close>, \<^verbatim>\<open>edges()\<close>, \<^verbatim>\<open>has_node(n)\<close>,
  \<^verbatim>\<open>neighbors(n)\<close>, \<^verbatim>\<open>adjacent(n1, n2)\<close>, \<^verbatim>\<open>depth_first_traversal(start)\<close> and
  \<^verbatim>\<open>breadth_first_traversal(start)\<close> is the graph before the call, keys, their order and
  every successor list, whether the call returns or raises.
\<close>

theorem queries_leave_graph_unchanged:
  "snd (nodes g) = g \<and> snd (edges g) = g \<and> snd (has_node g n) = g \<and>
   snd (neighbors g n) = g \<and> snd (adjacent g n1 n2) = g \<and>
   snd (depth_first_traversal g start) = g \<and>
   snd (breadth_first_traversal g start) = g"
  by (simp add: nodes_def edges_def has_node_def neighbors_def adjacent_def
      depth_first_traversal_def breadth_first_traversal_def split: sum.splits)

subsection \<open>C7: \<^verbatim>\<open>add_edge\<close> creates the endpoints that are missing\<close>

text \<open>
  When the edge is not there yet, \<^verbatim>\<open>add_edge\<close> returns, and the graph it leaves is the
  one after both \<^verbatim>\<open>setdefault\<close> calls with \<open>b\<close> appended to the list of \<open>a\<close>.
\<close>

lemma add_edge_new:
  assumes "\<forall>succs. getitem g a = Inr succs \<longrightarrow> b \<notin> set succs"
  shows "add_edge g a b =
     (Inr (), setitem (setdefault (setdefault g a []) b [])
                a ((case getitem g a of Inl e \<Rightarrow> [] | Inr succs \<Rightarrow> succs) @ [b]))"
proof (cases "a \<in> set (keys g)")
  case True
  then have "\<exists>v. getitem g a = Inr v" by (intro getitem_present)
  then obtain succs where succs: "getitem g a = Inr succs" ..
  with assms have "b \<notin> set succs" by simp
  with succs True show ?thesis
    by (auto simp: add_edge_def Let_def getitem_setdefault keys_setdefault)
next
  case False
  then have "getitem g a = Inl KeyError" by (rule getitem_absent)
  with False show ?thesis
    by (simp add: add_edge_def Let_def getitem_setdefault keys_setdefault)
qed

text \<open>
  C7. For every graph and nodes \<open>a\<close>, \<open>b\<close> with \<open>a\<close> or \<open>b\<close> absent and \<open>b\<close> not in the
  successor list of \<open>a\<close>: \<^verbatim>\<open>add_edge(a, b)\<close> returns; the keys afterwards are the old
  keys followed by \<open>a\<close> and then \<open>b\<close>, each only if it was absent; the list of \<open>a\<close> is
  its old list (empty if \<open>a\<close> was absent) with \<open>b\<close> appended; an absent \<open>b\<close> other than
  \<open>a\<close> gets the empty list; every other node keeps its list. No other mutating method
  adds a key that is not its argument: \<^verbatim>\<open>add_node(n)\<close> adds at most \<open>n\<close>, \<^verbatim>\<open>del_node\<close>
  adds none, \<^verbatim>\<open>del_edge\<close> leaves the keys as they are.
\<close>

theorem add_edge_creates_endpoints:
  assumes "a \<notin> set (keys g) \<or> b \<notin> set (keys g)"
    and "\<forall>succs. getitem g a = Inr succs \<longrightarrow> b \<notin> set succs"
  shows "\<exists>g'. add_edge g a b = (Inr (), g') \<and>
      keys g' = keys g @ (if a \<in> set (keys g) then [] else [a])
                       @ (if b \<in> set (keys g) \<or> b = a then [] else [b]) \<and>
      getitem g' a = Inr ((case getitem g a of Inl e \<Rightarrow> [] | Inr succs \<Rightarrow> succs) @ [b]) \<and>
      (b \<noteq> a \<longrightarrow> getitem g' b = (if b \<in> set (keys g) then getitem g b else Inr [])) \<and>
      (\<forall>n. n \<noteq> a \<and> n \<noteq> b \<longrightarrow> getitem g' n = getitem g n) \<and>
      set (keys (snd (add_node g n1))) \<subseteq> insert n1 (set (keys g)) \<and>
      set (keys (snd (del_node g n1))) \<subseteq> set (keys g) \<and>
      keys (snd (del_edge g n1 n2)) = keys g"
proof -
  let ?g' = "setitem (setdefault (setdefault g a []) b [])
                a ((case getitem g a of Inl e \<Rightarrow> [] | Inr succs \<Rightarrow> succs) @ [b])"
  have 1: "add_edge g a b = (Inr (), ?g')"
    using assms(2) by (rule add_edge_new)
  have 2: "keys ?g' = keys g @ (if a \<in> set (keys g) then [] else [a])
                       @ (if b \<in> set (keys g) \<or> b = a then [] else [b])"
    by (simp add: keys_setitem keys_setdefault)
  have 3: "getitem ?g' a = Inr ((case getitem g a of Inl e \<Rightarrow> [] | Inr succs \<Rightarrow> succs) @ [b])"
    by (simp add: getitem_setitem)
  have 4: "b \<noteq> a \<longrightarrow> getitem ?g' b = (if b \<in> set (keys g) then getitem g b else Inr [])"
    by (simp add: getitem_setitem getitem_setdefault keys_setdefault)
  have 5: "\<forall>n. n \<noteq> a \<and> n \<noteq> b \<longrightarrow> getitem ?g' n = getitem g n"
    by (simp add: getitem_setitem getitem_setdefault)
  have 6: "set (keys (snd (add_node g n1))) \<subseteq> insert n1 (set (keys g))"
    by (auto simp: add_node_def keys_setitem)
  have 7: "set (keys (snd (del_node g n1))) \<subseteq> set (keys g)"
    by (auto simp: del_node_def keys_delitem)
  have 8: "keys (snd (del_edge g n1 n2)) = keys g"
    by (auto simp: del_edge_def keys_setitem split: sum.splits)
  from 1 2 3 4 5 6 7 8 show ?thesis by blast
qed

text \<open>On \<open>1 \<rightarrow> 2\<close>, \<^verbatim>\<open>add_edge(3, 1)\<close> creates node 3 with the one successor 1.\<close>

theorem add_edge_creates_endpoints_witness:
  "(3::nat) \<notin> set (keys [(1, [2]), (2, [])]) \<and>
   getitem [(1, [2]), (2, [])] (3::nat) = Inl KeyError \<and>
   add_edge [(1, [2]), (2, [])] (3::nat) 1 = (Inr (), [(1, [2]), (2, []), (3, [1])])"
  using add_edge_creates_endpoints [of 3 "[(1, [2]), (2, [])]" "1::nat"]
  by (simp add: graph_eval)

subsection \<open>C2: a node found twice in one layer\<close>

text \<open>
  C2. The claim is that \<^verbatim>\<open>breadth_first_traversal\<close> never returns a node twice. On the
  diamond \<open>1 \<rightarrow> 2, 1 \<rightarrow> 3, 2 \<rightarrow> 4, 3 \<rightarrow> 4\<close>, built by four \<^verbatim>\<open>add_edge\<close> calls from the
  empty graph, the method returns \<open>[1, 2, 3, 4, 4]\<close>: node 4 is found from 2 and from 3
  in the same layer, and the test \<^verbatim>\<open>edge not in path_list\<close> does not see \<^verbatim>\<open>children\<close>.
\<close>

theorem breadth_first_diamond_repeats_node:
  "run init [Add_edge (1::nat) 2, Add_edge 1 3, Add_edge 2 4, Add_edge 3 4] =
     [(1, [2, 3]), (2, [4]), (3, [4]), (4, [])] \<and>
   fst (breadth_first_traversal [(1, [2, 3]), (2, [4]), (3, [4]), (4, [])] (1::nat)) =
     Inr [1, 2, 3, 4, 4] \<and>
   \<not> distinct [1, 2, 3, 4, 4::nat]"
  by (simp add: graph_eval)

subsection \<open>C1: a failed \<^verbatim>\<open>add_edge\<close> that has written\<close>

text \<open>
  \<^verbatim>\<open>add_node\<close>, \<^verbatim>\<open>del_node\<close> and \<^verbatim>\<open>del_edge\<close> test before they write: when they raise,
  the graph is as it was. \<^verbatim>\<open>add_edge\<close> raises only for an edge that exists, so its first
  node is present; what it leaves is the graph after \<^verbatim>\<open>setdefault(n2, [])\<close>, which is the
  graph as it was only when the second node is present too.
\<close>

lemma raise_leaves_graph:
  "fst (add_node g n) = Inl e \<Longrightarrow> snd (add_node g n) = g"
  "fst (del_node g n) = Inl e \<Longrightarrow> snd (del_node g n) = g"
  "fst (del_edge g n1 n2) = Inl e \<Longrightarrow> snd (del_edge g n1 n2) = g"
  by (auto simp: add_node_def del_node_def del_edge_def split: if_splits sum.splits)

lemma add_edge_raise:
  assumes "fst (add_edge g n1 n2) = Inl e"
  shows "e = ValueError \<and> n1 \<in> set (keys g) \<and> snd (add_edge g n1 n2) = setdefault g n2 []"
proof -
  let ?g2 = "setdefault (setdefault g n1 []) n2 []"
  have "n1 \<in> set (keys ?g2)" by (simp add: keys_setdefault)
  then have "\<exists>v. getitem ?g2 n1 = Inr v" by (rule getitem_present)
  then obtain succs where succs: "getitem ?g2 n1 = Inr succs" ..
  with assms have mem: "n2 \<in> set succs" and e: "e = ValueError"
    and g2: "snd (add_edge g n1 n2) = ?g2"
    by (auto simp: add_edge_def Let_def split: if_splits)
  have "n1 \<in> set (keys g)"
  proof (rule ccontr)
    assume "n1 \<notin> set (keys g)"
    then have "getitem ?g2 n1 = Inr []"
      by (simp add: getitem_setdefault keys_setdefault)
    with succs mem show False by simp
  qed
  with e g2 show ?thesis by (simp add: setdefault_def)
qed

lemma add_edge_raise_present:
  "fst (add_edge g n1 n2) = Inl e \<Longrightarrow> n2 \<in> set (keys g) \<Longrightarrow> snd (add_edge g n1 n2) = g"
  using add_edge_raise[of g n1 n2 e] by (simp add: setdefault_def)

text \<open>
  C1. The claim is that a call that raises leaves the graph as it was. After
  \<^verbatim>\<open>add_edge(1, 2)\<close> and \<^verbatim>\<open>del_node(2)\<close> the graph is \<open>{1: [2]}\<close>; there \<^verbatim>\<open>add_edge(1, 2)\<close>
  raises \<^verbatim>\<open>ValueError\<close> for the edge that exists, after its \<^verbatim>\<open>setdefault\<close> has put
  node 2 back: the graph after the raise is \<open>{1: [2], 2: []}\<close>.
\<close>

theorem failed_add_edge_creates_node:
  "run init [Add_edge (1::nat) 2, Del_node 2] = [(1, [2])] \<and>
   add_edge [(1, [2])] (1::nat) 2 = (Inl ValueError, [(1, [2]), (2, [])])"
  by (simp add: graph_eval)


subsection \<open>C4: a traversal that reaches an absent node\<close>

text \<open>
  \<^verbatim>\<open>depth_first_traversal\<close> tests \<^verbatim>\<open>start not in self._nodes.keys()\<close> in every call,
  the recursive ones too, and \<^verbatim>\<open>breadth_first_traversal\<close> reads \<^verbatim>\<open>self._nodes[item]\<close>
  for every node of a layer. So a loop over a list that holds an absent node ends in
  \<^verbatim>\<open>KeyError\<close>, at that node or at an absent one before it.
\<close>

lemma dfs_absent: "start \<notin> set (keys g) \<Longrightarrow> dfs g start prev = (Inl KeyError, prev)"
  by (simp add: dfs.simps)

lemma dfs_for_absent:
  "distinct prev \<Longrightarrow> n \<in> set succs \<Longrightarrow> n \<notin> set (keys g) \<Longrightarrow>
     fst (dfs_for g succs path_list prev) = Inl KeyError"
proof (induction succs arbitrary: path_list prev)
  case Nil
  then show ?case by simp
next
  case (Cons node succs)
  obtain r prev' where r: "dfs g node prev = (r, prev')"
    by (cases "dfs g node prev")
  from dfs_visited(1)[OF Cons.prems(1), of g node]
  obtain v where "snd (dfs g node prev) = prev @ v" "distinct (prev @ v)"
    "fst (dfs g node prev) = Inr v \<or> fst (dfs g node prev) = Inl KeyError"
    by (elim exE conjE)
  with r have v: "prev' = prev @ v" "distinct prev'" "r = Inr v \<or> r = Inl KeyError"
    by simp_all
  from v(3) show ?case
  proof
    assume "r = Inl KeyError"
    with r show ?thesis by simp
  next
    assume rv: "r = Inr v"
    have "node \<noteq> n"
    proof
      assume "node = n"
      with Cons.prems(3) r have "r = Inl KeyError" by (simp add: dfs_absent)
      with rv show False by simp
    qed
    with Cons.prems(2) have "n \<in> set succs" by simp
    from Cons.IH[OF v(2) this Cons.prems(3)] r rv show ?thesis by simp
  qed
qed

lemma bfs_children_absent:
  "n \<in> set parent \<Longrightarrow> n \<notin> set (keys g) \<Longrightarrow>
     bfs_children g parent path_list children = Inl KeyError"
proof (induction parent arbitrary: children)
  case Nil
  then show ?case by simp
next
  case (Cons item parent)
  show ?case
  proof (cases "getitem g item")
    case (Inl e)
    then have "e = KeyError" by (simp add: getitem_Inl)
    with Inl show ?thesis by simp
  next
    case (Inr es)
    then have "item \<in> set (keys g)" by (rule getitem_Inr_keys)
    with Cons.prems have "n \<in> set parent" by auto
    from Cons.IH[OF this Cons.prems(2)] Inr show ?thesis by simp
  qed
qed

text \<open>
  C4, as the code has it. For every graph in which a present node \<open>m\<close> has an absent
  node \<open>n\<close> in its successor list, \<^verbatim>\<open>depth_first_traversal(m)\<close> and
  \<^verbatim>\<open>breadth_first_traversal(m)\<close> both raise \<^verbatim>\<open>KeyError\<close>, and leave the graph as it
  was.
\<close>

theorem traversals_raise_on_dangling_successor:
  assumes "getitem g m = Inr succs" and "n \<in> set succs" and "n \<notin> set (keys g)"
  shows "depth_first_traversal g m = (Inl KeyError, g) \<and>
         breadth_first_traversal g m = (Inl KeyError, g)"
proof
  from assms(1) have m: "m \<in> set (keys g)" by (rule getitem_Inr_keys)
  with assms(1) have "dfs g m [] = dfs_for g succs [m] [m]"
    by (simp add: dfs.simps)
  moreover have "fst (dfs_for g succs [m] [m]) = Inl KeyError"
    using assms(2,3) by (intro dfs_for_absent) simp_all
  ultimately show "depth_first_traversal g m = (Inl KeyError, g)"
    by (simp add: depth_first_traversal_def)
next
  from assms(1) have m: "m \<in> set (keys g)" by (rule getitem_Inr_keys)
  with assms(3) have nm: "n \<noteq> m" by auto
  let ?children = "filter (\<lambda>edge. edge \<notin> set [m]) succs"
  have ch: "bfs_children g [m] [m] [] = Inr ?children"
    using assms(1) by simp
  from nm assms(2) have n: "n \<in> set ?children" by simp
  then have "0 < length ?children" by (rule length_pos_if_in_set)
  then have ne: "length ?children \<noteq> 0" by linarith
  from n assms(3) have "bfs_children g ?children ([m] @ ?children) [] = Inl KeyError"
    by (rule bfs_children_absent)
  then have "breadth_first_layers g ?children ([m] @ ?children) = Inl KeyError"
    by (subst breadth_first_layers.simps) simp
  with ch ne have "breadth_first_layers g [m] [m] = Inl KeyError"
    by (subst breadth_first_layers.simps) simp
  then show "breadth_first_traversal g m = (Inl KeyError, g)"
    by (simp add: breadth_first_traversal_def)
qed

text \<open>In \<open>{1: [2, 3], 2: []}\<close> node 3 is absent: both traversals from 1 raise.\<close>

theorem traversals_raise_on_dangling_successor_witness:
  "getitem [(1, [2, 3]), (2, [])] (1::nat) = Inr [2, 3] \<and>
   (3::nat) \<in> set [2, 3] \<and> (3::nat) \<notin> set (keys [(1, [2, 3]), (2, [])]) \<and>
   depth_first_traversal [(1, [2, 3]), (2, [])] (1::nat) = (Inl KeyError, [(1, [2, 3]), (2, [])]) \<and>
   breadth_first_traversal [(1, [2, 3]), (2, [])] (1::nat) = (Inl KeyError, [(1, [2, 3]), (2, [])])"
  using traversals_raise_on_dangling_successor
    [of "[(1, [2, 3]), (2, [])]" "1::nat" "[2, 3]" 3]
  by (simp add: getitem_def keys_def)

text \<open>
  The claim says the two calls complete without raising. The graph \<open>{1: [2]}\<close> is what
  \<^verbatim>\<open>add_edge(1, 2)\<close> and \<^verbatim>\<open>del_node(2)\<close> leave; node 1 is present, its successor 2 is
  absent, and both traversals from 1 raise \<^verbatim>\<open>KeyError\<close>.
\<close>

theorem traversals_after_del_node_raise:
  "run init [Add_edge (1::nat) 2, Del_node 2] = [(1, [2])] \<and>
   getitem [(1, [2])] (1::nat) = Inr [2] \<and> (2::nat) \<notin> set (keys [(1, [2])]) \<and>
   fst (depth_first_traversal [(1, [2])] (1::nat)) = Inl KeyError \<and>
   fst (breadth_first_traversal [(1, [2])] (1::nat)) = Inl KeyError"
  by (simp add: graph_eval)


subsection \<open>C3: referential integrity of the graphs the methods build\<close>

text \<open>
  Each mutating method keeps referential integrity, \<^verbatim>\<open>add_edge\<close> also when it raises,
  except \<^verbatim>\<open>del_node\<close>: it deletes the key and looks at no successor list, so it keeps
  integrity only when no list that stays holds the deleted node. The keys stay distinct
  throughout: the association list is a dictionary.
\<close>

lemma ri_setdefault:
  "referential_integrity g \<Longrightarrow> referential_integrity (setdefault g k [])"
  by (auto simp: referential_integrity_def succ_nodes_setdefault_Nil keys_setdefault)

lemma ri_setitem:
  assumes "referential_integrity g" and "set v \<subseteq> set (keys g) \<union> {k}"
  shows "referential_integrity (setitem g k v)"
proof -
  have "succ_nodes (setitem g k v) \<subseteq> succ_nodes g \<union> set v"
    by (rule succ_nodes_setitem)
  also have "\<dots> \<subseteq> set (keys g) \<union> {k}"
    using assms by (auto simp: referential_integrity_def)
  also have "\<dots> = set (keys (setitem g k v))"
    by (auto simp: keys_setitem)
  finally show ?thesis by (simp add: referential_integrity_def)
qed

lemma ri_succs:
  "referential_integrity g \<Longrightarrow> getitem g k = Inr succs \<Longrightarrow> set succs \<subseteq> set (keys g)"
  using getitem_succ_nodes[of g k succs] by (auto simp: referential_integrity_def)

lemma ri_add_node:
  "referential_integrity g \<Longrightarrow> referential_integrity (snd (add_node g n))"
  by (simp add: add_node_def ri_setitem)

lemma ri_add_edge:
  assumes "referential_integrity g"
  shows "referential_integrity (snd (add_edge g n1 n2))"
proof -
  let ?g2 = "setdefault (setdefault g n1 []) n2 []"
  have g2: "referential_integrity ?g2"
    using assms by (intro ri_setdefault)
  have n2: "n2 \<in> set (keys ?g2)"
    by (simp add: keys_setdefault)
  show ?thesis
  proof (cases "getitem ?g2 n1")
    case (Inl e)
    with g2 show ?thesis by (simp add: add_edge_def Let_def)
  next
    case (Inr succs)
    from ri_succs[OF g2 Inr] n2 have "set (succs @ [n2]) \<subseteq> set (keys ?g2) \<union> {n1}"
      by auto
    with g2 have "referential_integrity (setitem ?g2 n1 (succs @ [n2]))"
      by (rule ri_setitem)
    with g2 Inr show ?thesis by (simp add: add_edge_def Let_def)
  qed
qed

lemma ri_del_edge:
  assumes "referential_integrity g"
  shows "referential_integrity (snd (del_edge g n1 n2))"
proof (cases "getitem g n1")
  case (Inl e)
  with assms show ?thesis by (simp add: del_edge_def)
next
  case (Inr succs)
  from ri_succs[OF assms Inr] have "set (remove1 n2 succs) \<subseteq> set (keys g) \<union> {n1}"
    using set_remove1_subset[of n2 succs] by auto
  with assms have "referential_integrity (setitem g n1 (remove1 n2 succs))"
    by (rule ri_setitem)
  with assms Inr show ?thesis by (simp add: del_edge_def)
qed

lemma ri_del_node:
  assumes "referential_integrity g" and "n \<notin> succ_nodes (snd (del_node g n))"
  shows "referential_integrity (snd (del_node g n))"
proof (cases "n \<in> set (keys g)")
  case False
  with assms(1) show ?thesis by (simp add: del_node_def)
next
  case True
  with assms(2) have n: "n \<notin> succ_nodes (delitem g n)" by (simp add: del_node_def)
  have "succ_nodes (delitem g n) \<subseteq> set (keys g)"
    using succ_nodes_delitem[of g n] assms(1) by (auto simp: referential_integrity_def)
  with n have "succ_nodes (delitem g n) \<subseteq> set (keys (delitem g n))"
    by (auto simp: keys_delitem)
  with True show ?thesis by (simp add: del_node_def referential_integrity_def)
qed

lemma ri_mutate:
  assumes "referential_integrity g"
    and "case m of Del_node n \<Rightarrow> n \<notin> succ_nodes (mutate g m) | _ \<Rightarrow> True"
  shows "referential_integrity (mutate g m)"
  using assms by (cases m) (simp_all add: ri_add_node ri_add_edge ri_del_edge ri_del_node)

lemma distinct_mutate: "distinct (keys g) \<Longrightarrow> distinct (keys (mutate g m))"
proof (cases m)
  case (Add_node n)
  assume "distinct (keys g)"
  with Add_node show ?thesis by (simp add: add_node_def distinct_setitem)
next
  case (Add_edge n1 n2)
  assume "distinct (keys g)"
  then have "distinct (keys (setdefault (setdefault g n1 []) n2 []))"
    by (intro distinct_setdefault)
  with Add_edge show ?thesis
    by (simp add: add_edge_def Let_def distinct_setitem split: sum.splits)
next
  case (Del_node n)
  assume "distinct (keys g)"
  with Del_node show ?thesis by (simp add: del_node_def distinct_delitem)
next
  case (Del_edge n1 n2)
  assume "distinct (keys g)"
  with Del_edge show ?thesis
    by (simp add: del_edge_def distinct_setitem split: sum.splits)
qed

lemma ri_run:
  "referential_integrity g \<Longrightarrow> distinct (keys g) \<Longrightarrow> deletes_unreferenced g ms \<Longrightarrow>
     referential_integrity (run g ms) \<and> distinct (keys (run g ms))"
proof (induction ms arbitrary: g)
  case Nil
  then show ?case by (simp add: run_def)
next
  case (Cons m ms)
  from Cons.prems(1,3) have "referential_integrity (mutate g m)"
    by (intro ri_mutate) simp_all
  moreover from Cons.prems(2) have "distinct (keys (mutate g m))"
    by (rule distinct_mutate)
  moreover from Cons.prems(3) have "deletes_unreferenced (mutate g m) ms" by simp
  ultimately have "referential_integrity (run (mutate g m) ms) \<and>
      distinct (keys (run (mutate g m) ms))"
    by (rule Cons.IH)
  then show ?case by (simp add: run_def)
qed

text \<open>
  C3, as the code has it. In any graph produced from the empty graph by a sequence of
  \<^verbatim>\<open>add_node\<close>, \<^verbatim>\<open>add_edge\<close>, \<^verbatim>\<open>del_edge\<close> and \<^verbatim>\<open>del_node\<close> calls in which every
  \<^verbatim>\<open>del_node(n)\<close> is made when no node that stays has \<open>n\<close> as a successor, every node of
  a successor list is a key.
\<close>

theorem integrity_when_deletes_unreferenced:
  "deletes_unreferenced init ms \<Longrightarrow>
     referential_integrity (run init ms) \<and> distinct (keys (run init ms))"
  by (rule ri_run) (simp_all add: init_def referential_integrity_def succ_nodes_def keys_def)

text \<open>
  The edge \<open>1 \<rightarrow> 2\<close> is deleted before node 2: the sequence qualifies and the graph it
  leaves has integrity.
\<close>

theorem integrity_when_deletes_unreferenced_witness:
  "deletes_unreferenced init [Add_edge (1::nat) 2, Add_node 3, Del_edge 1 2, Del_node 2] \<and>
   run init [Add_edge (1::nat) 2, Add_node 3, Del_edge 1 2, Del_node 2] = [(1, []), (3, [])] \<and>
   referential_integrity (run init [Add_edge (1::nat) 2, Add_node 3, Del_edge 1 2, Del_node 2])"
  using integrity_when_deletes_unreferenced
    [of "[Add_edge (1::nat) 2, Add_node 3, Del_edge 1 2, Del_node 2]"]
  by (simp add: graph_eval succ_nodes_def)

text \<open>
  The claim is for every sequence of the four methods. \<^verbatim>\<open>add_edge(1, 2)\<close> followed by
  \<^verbatim>\<open>del_node(2)\<close> leaves \<open>{1: [2]}\<close>, where 2 is a successor and no key.
\<close>

theorem del_node_breaks_integrity:
  "run init [Add_edge (1::nat) 2, Del_node 2] = [(1, [2])] \<and>
   \<not> referential_integrity (run init [Add_edge (1::nat) 2, Del_node 2])"
  by (simp add: graph_eval referential_integrity_def succ_nodes_def)


subsection \<open>C6: depth-first traversal and cycles\<close>

text \<open>
  On a graph with referential integrity every node the traversal meets is a key, so no
  call raises.
\<close>

lemma dfs_returns:
  "referential_integrity g \<Longrightarrow> start \<in> set (keys g) \<Longrightarrow>
     \<exists>p. fst (dfs g start prev) = Inr p"
  "referential_integrity g \<Longrightarrow> set succs \<subseteq> set (keys g) \<Longrightarrow>
     \<exists>p. fst (dfs_for g succs path_list prev) = Inr p"
proof (induction g start prev and g succs path_list prev rule: dfs_dfs_for.induct)
  case (1 g start prev)
  show ?case
  proof (cases "start \<in> set prev")
    case True
    with 1(3) show ?thesis by (simp add: dfs.simps)
  next
    case False
    from 1(3) have "\<exists>v. getitem g start = Inr v" by (rule getitem_present)
    then obtain succs where succs: "getitem g start = Inr succs" ..
    from ri_succs[OF 1(2) succs] have sub: "set succs \<subseteq> set (keys g)" .
    have "\<exists>p. fst (dfs_for g succs [start] (prev @ [start])) = Inr p"
      by (rule 1(1)[OF _ False succs 1(2) sub]) (use 1(3) in simp)
    moreover have "dfs g start prev = dfs_for g succs [start] (prev @ [start])"
      using 1(3) False succs by (simp add: dfs.simps)
    ultimately show ?thesis by simp
  qed
next
  case (2 g path_list prev)
  then show ?case by simp
next
  case (3 g node succs path_list prev)
  obtain r prev' where r: "dfs g node prev = (r, prev')"
    by (cases "dfs g node prev")
  from 3(4) have node: "node \<in> set (keys g)" and sub: "set succs \<subseteq> set (keys g)"
    by simp_all
  from 3(1)[OF 3(3) node] r obtain p where p: "r = Inr p" by auto
  have "\<exists>q. fst (dfs_for g succs (path_list @ p) prev') = Inr q"
    by (rule 3(2)[OF r[symmetric] p 3(3) sub])
  moreover have "dfs_for g (node # succs) path_list prev = dfs_for g succs (path_list @ p) prev'"
    using r p by simp
  ultimately show ?case by simp
qed

lemma dfs_start_first:
  assumes "start \<in> set (keys g)"
  shows "\<exists>rest. snd (dfs g start []) = start # rest"
proof -
  from assms have "\<exists>v. getitem g start = Inr v" by (rule getitem_present)
  then obtain succs where succs: "getitem g start = Inr succs" ..
  have "\<exists>v. snd (dfs_for g succs [start] [start]) = [start] @ v \<and> distinct ([start] @ v) \<and>
         (fst (dfs_for g succs [start] [start]) = Inr ([start] @ v) \<or>
          fst (dfs_for g succs [start] [start]) = Inl KeyError)"
    by (rule dfs_visited(2)) simp
  then obtain v where "snd (dfs_for g succs [start] [start]) = [start] @ v" by (elim exE conjE)
  moreover have "dfs g start [] = dfs_for g succs [start] [start]"
    using assms succs by (simp add: dfs.simps)
  ultimately show ?thesis by simp
qed

text \<open>
  Returning needs less than referential integrity of the whole graph: it is enough that
  every node the traversal can meet from \<open>start\<close> is a key.
\<close>

lemma reachable_via_successor:
  assumes "getitem g start = Inr succs" and "a \<in> set succs" and "reachable g a n"
  shows "reachable g start n"
  using assms(3)
proof (induction rule: reachable.induct)
  case reachable_start
  from reachable.reachable_start assms(1,2) show ?case by (rule reachable_step)
next
  case (reachable_step b succs' c)
  then show ?case by (blast intro: reachable.reachable_step)
qed

lemma reaches_only_keys_start: "reaches_only_keys g start \<Longrightarrow> start \<in> set (keys g)"
  by (simp add: reaches_only_keys_def reachable_start)

lemma reaches_only_keys_successor:
  "reaches_only_keys g start \<Longrightarrow> getitem g start = Inr succs \<Longrightarrow> a \<in> set succs \<Longrightarrow>
     reaches_only_keys g a"
  unfolding reaches_only_keys_def by (blast intro: reachable_via_successor)

text \<open>
  A set that holds \<open>start\<close> and, with each node, its successors holds every node that
  \<open>start\<close> reaches.
\<close>

lemma reachable_in_closed:
  assumes "reachable g start n" and "start \<in> S"
    and "\<And>a succs. a \<in> S \<Longrightarrow> getitem g a = Inr succs \<Longrightarrow> set succs \<subseteq> S"
  shows "n \<in> S"
  using assms(1)
proof (induction rule: reachable.induct)
  case reachable_start
  show ?case by (rule assms(2))
next
  case (reachable_step a succs b)
  from assms(3)[OF reachable_step.IH reachable_step.hyps(2)] reachable_step.hyps(3)
  show ?case by auto
qed

lemma dfs_returns_reach:
  "reaches_only_keys g start \<Longrightarrow> \<exists>p. fst (dfs g start prev) = Inr p"
  "(\<forall>a \<in> set succs. reaches_only_keys g a) \<Longrightarrow>
     \<exists>p. fst (dfs_for g succs path_list prev) = Inr p"
proof (induction g start prev and g succs path_list prev rule: dfs_dfs_for.induct)
  case (1 g start prev)
  from 1(2) have key: "start \<in> set (keys g)" by (rule reaches_only_keys_start)
  show ?case
  proof (cases "start \<in> set prev")
    case True
    with key show ?thesis by (simp add: dfs.simps)
  next
    case False
    from key have "\<exists>v. getitem g start = Inr v" by (rule getitem_present)
    then obtain succs where succs: "getitem g start = Inr succs" ..
    have all: "\<forall>a \<in> set succs. reaches_only_keys g a"
      using reaches_only_keys_successor[OF 1(2) succs] by simp
    have "\<exists>p. fst (dfs_for g succs [start] (prev @ [start])) = Inr p"
      by (rule 1(1)[OF _ False succs all]) (use key in simp)
    moreover have "dfs g start prev = dfs_for g succs [start] (prev @ [start])"
      using key False succs by (simp add: dfs.simps)
    ultimately show ?thesis by simp
  qed
next
  case (2 g path_list prev)
  then show ?case by simp
next
  case (3 g node succs path_list prev)
  obtain r prev' where r: "dfs g node prev = (r, prev')"
    by (cases "dfs g node prev")
  from 3(3) have node: "reaches_only_keys g node"
    and rest: "\<forall>a \<in> set succs. reaches_only_keys g a"
    by simp_all
  from 3(1)[OF node] r obtain p where p: "r = Inr p" by auto
  have "\<exists>q. fst (dfs_for g succs (path_list @ p) prev') = Inr q"
    by (rule 3(2)[OF r[symmetric] p rest])
  moreover have "dfs_for g (node # succs) path_list prev = dfs_for g succs (path_list @ p) prev'"
    using r p by simp
  ultimately show ?case by simp
qed

text \<open>
  Conversely, a call that returns has closed what it visited: every node it added to
  \<^verbatim>\<open>prev\<close> is a key, and all the successors of such a node are in \<^verbatim>\<open>prev\<close> at the return.
\<close>

lemma dfs_closed:
  "dfs g start prev = (Inr p, prev') \<Longrightarrow>
     set prev \<subseteq> set prev' \<and> start \<in> set prev' \<and>
     (\<forall>a \<in> set prev' - set prev. a \<in> set (keys g) \<and>
        (\<forall>succs. getitem g a = Inr succs \<longrightarrow> set succs \<subseteq> set prev'))"
  "dfs_for g succs path_list prev = (Inr p, prev') \<Longrightarrow>
     set prev \<subseteq> set prev' \<and> set succs \<subseteq> set prev' \<and>
     (\<forall>a \<in> set prev' - set prev. a \<in> set (keys g) \<and>
        (\<forall>succs. getitem g a = Inr succs \<longrightarrow> set succs \<subseteq> set prev'))"
proof (induction g start prev and g succs path_list prev arbitrary: p prev' and p prev'
       rule: dfs_dfs_for.induct)
  case (1 g start prev)
  show ?case
  proof (cases "start \<in> set (keys g)")
    case False
    with 1(2) show ?thesis by (simp add: dfs.simps)
  next
    case key: True
    show ?thesis
    proof (cases "start \<in> set prev")
      case True
      with key 1(2) show ?thesis by (simp add: dfs.simps)
    next
      case False
      from key have "\<exists>v. getitem g start = Inr v" by (rule getitem_present)
      then obtain succs where succs: "getitem g start = Inr succs" ..
      from key False succs 1(2)
      have run: "dfs_for g succs [start] (prev @ [start]) = (Inr p, prev')"
        by (simp add: dfs.simps)
      have ih: "set (prev @ [start]) \<subseteq> set prev' \<and> set succs \<subseteq> set prev' \<and>
          (\<forall>a \<in> set prev' - set (prev @ [start]). a \<in> set (keys g) \<and>
             (\<forall>succs. getitem g a = Inr succs \<longrightarrow> set succs \<subseteq> set prev'))"
        by (rule 1(1)[OF _ False succs run]) (use key in simp)
      have "\<forall>a \<in> set prev' - set prev. a \<in> set (keys g) \<and>
             (\<forall>succs. getitem g a = Inr succs \<longrightarrow> set succs \<subseteq> set prev')"
      proof
        fix a assume a: "a \<in> set prev' - set prev"
        show "a \<in> set (keys g) \<and> (\<forall>succs. getitem g a = Inr succs \<longrightarrow> set succs \<subseteq> set prev')"
        proof (cases "a = start")
          case True
          with key succs ih show ?thesis by simp
        next
          case False
          with a have "a \<in> set prev' - set (prev @ [start])" by simp
          with ih show ?thesis by blast
        qed
      qed
      with ih show ?thesis by simp
    qed
  qed
next
  case (2 g path_list prev)
  then show ?case by simp
next
  case (3 g node succs path_list prev)
  obtain r prev1 where r: "dfs g node prev = (r, prev1)"
    by (cases "dfs g node prev")
  from r 3(3) obtain q where q: "r = Inr q"
    by (cases r) simp_all
  from r q 3(3) have run: "dfs_for g succs (path_list @ q) prev1 = (Inr p, prev')"
    by simp
  from r q have "dfs g node prev = (Inr q, prev1)" by simp
  from 3(1)[OF this]
  have ih1: "set prev \<subseteq> set prev1" "node \<in> set prev1"
    "\<forall>a \<in> set prev1 - set prev. a \<in> set (keys g) \<and>
        (\<forall>succs. getitem g a = Inr succs \<longrightarrow> set succs \<subseteq> set prev1)"
    by simp_all
  from 3(2)[OF r[symmetric] q run]
  have ih2: "set prev1 \<subseteq> set prev'" "set succs \<subseteq> set prev'"
    "\<forall>a \<in> set prev' - set prev1. a \<in> set (keys g) \<and>
        (\<forall>succs. getitem g a = Inr succs \<longrightarrow> set succs \<subseteq> set prev')"
    by simp_all
  have "\<forall>a \<in> set prev' - set prev. a \<in> set (keys g) \<and>
        (\<forall>succs. getitem g a = Inr succs \<longrightarrow> set succs \<subseteq> set prev')"
  proof
    fix a assume a: "a \<in> set prev' - set prev"
    show "a \<in> set (keys g) \<and> (\<forall>succs. getitem g a = Inr succs \<longrightarrow> set succs \<subseteq> set prev')"
    proof (cases "a \<in> set prev1")
      case True
      with a have "a \<in> set prev1 - set prev" by simp
      with ih1(3) have "a \<in> set (keys g)"
        and "\<forall>succs. getitem g a = Inr succs \<longrightarrow> set succs \<subseteq> set prev1"
        by blast+
      with ih2(1) show ?thesis by blast
    next
      case False
      with a have "a \<in> set prev' - set prev1" by simp
      with ih2(3) show ?thesis by blast
    qed
  qed
  with ih1(1,2) ih2(1,2) show ?case by auto
qed

lemma dfs_return_reaches_only_keys:
  assumes "dfs g start [] = (Inr p, visited)"
  shows "reaches_only_keys g start"
  unfolding reaches_only_keys_def
proof (intro allI impI)
  fix n assume n: "reachable g start n"
  from dfs_closed(1)[OF assms]
  have start: "start \<in> set visited"
    and closed: "\<forall>a \<in> set visited. a \<in> set (keys g) \<and>
        (\<forall>succs. getitem g a = Inr succs \<longrightarrow> set succs \<subseteq> set visited)"
    by simp_all
  from n start have "n \<in> set visited"
  proof (rule reachable_in_closed)
    fix a succs assume "a \<in> set visited" and "getitem g a = Inr succs"
    with closed show "set succs \<subseteq> set visited" by blast
  qed
  with closed show "n \<in> set (keys g)" by blast
qed

lemma reaches_only_keysI:
  assumes "start \<in> S"
    and "\<And>a. a \<in> S \<Longrightarrow> \<exists>succs. getitem g a = Inr succs \<and> set succs \<subseteq> S"
  shows "reaches_only_keys g start"
  unfolding reaches_only_keys_def
proof (intro allI impI)
  fix n assume "reachable g start n"
  then have "n \<in> S" using assms(1)
  proof (rule reachable_in_closed)
    fix a succs assume "a \<in> S" and "getitem g a = Inr succs"
    with assms(2)[of a] show "set succs \<subseteq> S" by auto
  qed
  from assms(2)[OF this] show "n \<in> set (keys g)" by (blast intro: getitem_Inr_keys)
qed

text \<open>
  A call \<^verbatim>\<open>depth_first_traversal(start)\<close> from outside: the list \<open>visited\<close> is \<^verbatim>\<open>prev\<close>
  as the call leaves it, the nodes visited in the order of their visit.
\<close>

lemma dfs_from_start:
  "\<exists>r visited. dfs g start [] = (r, visited) \<and> depth_first_traversal g start = (r, g) \<and>
     distinct visited \<and> (r = Inr visited \<or> r = Inl KeyError) \<and>
     (start \<in> set (keys g) \<longrightarrow> (\<exists>rest. visited = start # rest)) \<and>
     (r = Inr visited \<longleftrightarrow> reaches_only_keys g start) \<and>
     (referential_integrity g \<and> start \<in> set (keys g) \<longrightarrow> r = Inr visited)"
proof -
  obtain r visited where rv: "dfs g start [] = (r, visited)"
    by (cases "dfs g start []")
  have "\<exists>v. snd (dfs g start []) = [] @ v \<and> distinct ([] @ v) \<and>
         (fst (dfs g start []) = Inr v \<or> fst (dfs g start []) = Inl KeyError)"
    by (rule dfs_visited(1)) simp
  with rv have d: "distinct visited" and out: "r = Inr visited \<or> r = Inl KeyError"
    by simp_all
  have dft: "depth_first_traversal g start = (r, g)"
    using rv by (simp add: depth_first_traversal_def)
  have first: "start \<in> set (keys g) \<longrightarrow> (\<exists>rest. visited = start # rest)"
    using dfs_start_first[of start g] rv by simp
  have reach: "r = Inr visited \<longleftrightarrow> reaches_only_keys g start"
  proof
    assume "r = Inr visited"
    with rv have "dfs g start [] = (Inr visited, visited)" by simp
    then show "reaches_only_keys g start" by (rule dfs_return_reaches_only_keys)
  next
    assume "reaches_only_keys g start"
    then have "\<exists>p. fst (dfs g start []) = Inr p" by (rule dfs_returns_reach(1))
    with rv out show "r = Inr visited" by auto
  qed
  have ret: "referential_integrity g \<and> start \<in> set (keys g) \<longrightarrow> r = Inr visited"
  proof
    assume "referential_integrity g \<and> start \<in> set (keys g)"
    then have "\<exists>p. fst (dfs g start []) = Inr p" by (intro dfs_returns(1)) simp_all
    with rv out show "r = Inr visited" by auto
  qed
  from rv dft d out first reach ret show ?thesis by blast
qed

text \<open>
  C6, as the code has it. For every graph and start node, on a cycle or not,
  \<^verbatim>\<open>depth_first_traversal(start)\<close> terminates (\<open>dfs\<close> is a total function) and visits no
  node twice: the list of the nodes it visits has no duplicate and begins with a present
  \<open>start\<close>. The call returns exactly when every node that can be reached from \<open>start\<close>
  along successor lists, \<open>start\<close> included, is a key, and what it returns is the list of
  the visited nodes; when some such node is absent it raises \<^verbatim>\<open>KeyError\<close>. In
  particular it returns when \<open>start\<close> is present and the graph has referential integrity.
\<close>

theorem depth_first_visits_each_node_once:
  "\<exists>r visited. dfs g start [] = (r, visited) \<and> depth_first_traversal g start = (r, g) \<and>
     distinct visited \<and> (r = Inr visited \<or> r = Inl KeyError) \<and>
     (start \<in> set (keys g) \<longrightarrow> (\<exists>rest. visited = start # rest)) \<and>
     (r = Inr visited \<longleftrightarrow> reaches_only_keys g start) \<and>
     (referential_integrity g \<and> start \<in> set (keys g) \<longrightarrow> r = Inr visited)"
  by (rule dfs_from_start)

text \<open>
  The graph \<open>{1: [2], 2: [1], 7: [8]}\<close> is left by three \<^verbatim>\<open>add_edge\<close> calls and
  \<^verbatim>\<open>del_node(8)\<close>: it has no referential integrity, but the cycle of 1 and 2 reaches only
  keys, and the traversal from 1 returns \<open>[1, 2]\<close>. On the cycle \<open>1 \<rightarrow> 2 \<rightarrow> 3 \<rightarrow> 1\<close> it
  returns \<open>[1, 2, 3]\<close>.
\<close>

theorem depth_first_visits_each_node_once_witness:
  "run init [Add_edge (1::nat) 2, Add_edge 2 1, Add_edge 7 8, Del_node 8] =
     [(1, [2]), (2, [1]), (7, [8])] \<and>
   \<not> referential_integrity [(1::nat, [2]), (2, [1]), (7, [8])] \<and>
   reaches_only_keys [(1::nat, [2]), (2, [1]), (7, [8])] 1 \<and>
   depth_first_traversal [(1::nat, [2]), (2, [1]), (7, [8])] 1 =
     (Inr [1, 2], [(1, [2]), (2, [1]), (7, [8])]) \<and>
   referential_integrity [(1::nat, [2]), (2, [3]), (3, [1])] \<and>
   depth_first_traversal [(1::nat, [2]), (2, [3]), (3, [1])] 1 =
     (Inr [1, 2, 3], [(1, [2]), (2, [3]), (3, [1])])"
proof -
  have reach: "reaches_only_keys [(1::nat, [2]), (2, [1]), (7, [8])] 1"
    by (rule reaches_only_keysI[of _ "{1, 2}"]) (auto simp: getitem_def)
  show ?thesis
    using reach
      depth_first_visits_each_node_once [of "[(1::nat, [2]), (2, [1]), (7, [8])]" 1]
      depth_first_visits_each_node_once [of "[(1::nat, [2]), (2, [3]), (3, [1])]" 1]
    by (simp add: graph_eval referential_integrity_def succ_nodes_def)
qed

text \<open>
  The claim is for every graph with a cycle among its present nodes. In
  \<open>{1: [2, 3], 2: [1]}\<close>, left by three \<^verbatim>\<open>add_edge\<close> calls and \<^verbatim>\<open>del_node(3)\<close>, nodes 1 and
  2 are on a cycle and present; the traversal from 1 visits 1 and 2, then meets the
  absent node 3 and raises \<^verbatim>\<open>KeyError\<close>: it has no output.
\<close>

theorem depth_first_cycle_with_dangling_successor:
  "run init [Add_edge (1::nat) 2, Add_edge 2 1, Add_edge 1 3, Del_node 3] =
     [(1, [2, 3]), (2, [1])] \<and>
   adjacent [(1::nat, [2, 3]), (2, [1])] 1 2 = (Inr True, [(1, [2, 3]), (2, [1])]) \<and>
   adjacent [(1::nat, [2, 3]), (2, [1])] 2 1 = (Inr True, [(1, [2, 3]), (2, [1])]) \<and>
   fst (depth_first_traversal [(1::nat, [2, 3]), (2, [1])] 1) = Inl KeyError"
  by (simp add: graph_eval)

subsection \<open>C10: self-loops\<close>

lemma count_list_distinct: "distinct xs \<Longrightarrow> x \<in> set xs \<Longrightarrow> count_list xs x = 1"
  by (induction xs) (auto simp: count_list_0_iff)

text \<open>
  C10, as the code has it. For every graph and node \<open>n\<close> that is not a successor of
  itself, \<^verbatim>\<open>add_edge(n, n)\<close> returns; on the graph it leaves \<^verbatim>\<open>adjacent(n, n)\<close> returns true
  and \<^verbatim>\<open>depth_first_traversal(n)\<close> terminates and visits \<open>n\<close> exactly once. The traversal
  returns exactly when, in the graph after the call, every node that can be reached from
  \<open>n\<close> is a key, and it returns the list of the visited nodes, with \<open>n\<close> once in it;
  when some such node is absent it raises \<^verbatim>\<open>KeyError\<close>. In particular it returns when the
  graph before the call had referential integrity, and it returns \<open>[n]\<close> when \<open>n\<close> was
  absent before the call.
\<close>

theorem self_loop_supported:
  assumes "\<forall>succs. getitem g n = Inr succs \<longrightarrow> n \<notin> set succs"
  shows "\<exists>g' r visited. add_edge g n n = (Inr (), g') \<and> adjacent g' n n = (Inr True, g') \<and>
     dfs g' n [] = (r, visited) \<and> depth_first_traversal g' n = (r, g') \<and>
     count_list visited n = 1 \<and> (r = Inr visited \<or> r = Inl KeyError) \<and>
     (r = Inr visited \<longleftrightarrow> reaches_only_keys g' n) \<and>
     (referential_integrity g \<longrightarrow> r = Inr visited) \<and>
     (n \<notin> set (keys g) \<longrightarrow> r = Inr [n])"
proof -
  let ?old = "case getitem g n of Inl e \<Rightarrow> [] | Inr succs \<Rightarrow> succs"
  let ?g' = "setitem (setdefault (setdefault g n []) n []) n (?old @ [n])"
  have add: "add_edge g n n = (Inr (), ?g')"
    using assms by (rule add_edge_new)
  have key: "n \<in> set (keys ?g')"
    by (simp add: keys_setitem)
  have succs: "getitem ?g' n = Inr (?old @ [n])"
    by (simp add: getitem_setitem)
  from key succs have adj: "adjacent ?g' n n = (Inr True, ?g')"
    by (simp add: adjacent_def has_node_def)
  from dfs_from_start[of ?g' n]
  obtain r visited where rv: "dfs ?g' n [] = (r, visited)"
    and dft: "depth_first_traversal ?g' n = (r, ?g')"
    and d: "distinct visited"
    and out: "r = Inr visited \<or> r = Inl KeyError"
    and first: "n \<in> set (keys ?g') \<longrightarrow> (\<exists>rest. visited = n # rest)"
    and reach: "r = Inr visited \<longleftrightarrow> reaches_only_keys ?g' n"
    and ret: "referential_integrity ?g' \<and> n \<in> set (keys ?g') \<longrightarrow> r = Inr visited"
    by (elim exE conjE)
  from first key have "n \<in> set visited" by auto
  with d have once: "count_list visited n = 1" by (rule count_list_distinct)
  have ri: "referential_integrity g \<longrightarrow> r = Inr visited"
  proof
    assume "referential_integrity g"
    then have "referential_integrity (snd (add_edge g n n))" by (rule ri_add_edge)
    with add have "referential_integrity ?g'" by simp
    with ret key show "r = Inr visited" by simp
  qed
  have new: "n \<notin> set (keys g) \<longrightarrow> r = Inr [n]"
  proof
    assume "n \<notin> set (keys g)"
    then have "getitem g n = Inl KeyError" by (rule getitem_absent)
    with succs have s: "getitem ?g' n = Inr [n]" by simp
    from key s have "dfs ?g' n [] = dfs_for ?g' [n] [n] [n]"
      by (simp add: dfs.simps)
    also from key have "\<dots> = (Inr [n], [n])"
      by (simp add: dfs.simps)
    finally show "r = Inr [n]" using rv by simp
  qed
  from add adj rv dft once out reach ri new show ?thesis by blast
qed

text \<open>
  The graph \<open>{1: [2], 2: [], 7: [8]}\<close> is left by two \<^verbatim>\<open>add_edge\<close> calls and
  \<^verbatim>\<open>del_node(8)\<close> and has no referential integrity. \<^verbatim>\<open>add_edge(2, 2)\<close> returns; node 2
  then reaches only itself, and the traversal from 2 returns \<open>[2]\<close>.
\<close>

theorem self_loop_supported_witness:
  "run init [Add_edge (1::nat) 2, Add_edge 7 8, Del_node 8] = [(1, [2]), (2, []), (7, [8])] \<and>
   \<not> referential_integrity [(1::nat, [2]), (2, []), (7, [8])] \<and>
   getitem [(1::nat, [2]), (2, []), (7, [8])] 2 = Inr [] \<and>
   add_edge [(1::nat, [2]), (2, []), (7, [8])] 2 2 = (Inr (), [(1, [2]), (2, [2]), (7, [8])]) \<and>
   reaches_only_keys [(1::nat, [2]), (2, [2]), (7, [8])] 2 \<and>
   adjacent [(1::nat, [2]), (2, [2]), (7, [8])] 2 2 = (Inr True, [(1, [2]), (2, [2]), (7, [8])]) \<and>
   depth_first_traversal [(1::nat, [2]), (2, [2]), (7, [8])] 2 =
     (Inr [2], [(1, [2]), (2, [2]), (7, [8])]) \<and>
   count_list [2::nat] 2 = 1"
proof -
  have reach: "reaches_only_keys [(1::nat, [2]), (2, [2]), (7, [8])] 2"
    by (rule reaches_only_keysI[of _ "{2}"]) (auto simp: getitem_def)
  show ?thesis
    using reach self_loop_supported [of "[(1::nat, [2]), (2, []), (7, [8])]" 2]
    by (simp add: graph_eval referential_integrity_def succ_nodes_def)
qed

text \<open>
  The claim is for every node that is not its own successor. In \<open>{1: [2]}\<close>, left by
  \<^verbatim>\<open>add_edge(1, 2)\<close> and \<^verbatim>\<open>del_node(2)\<close>, \<^verbatim>\<open>add_edge(1, 1)\<close> returns and \<^verbatim>\<open>adjacent(1, 1)\<close>
  is true, but the traversal from 1 meets the absent node 2 before the self-loop and
  raises \<^verbatim>\<open>KeyError\<close>: it returns nothing.
\<close>

theorem self_loop_beside_dangling_successor:
  "run init [Add_edge (1::nat) 2, Del_node 2] = [(1, [2])] \<and>
   add_edge [(1::nat, [2])] 1 1 = (Inr (), [(1, [2, 1])]) \<and>
   adjacent [(1::nat, [2, 1])] 1 1 = (Inr True, [(1, [2, 1])]) \<and>
   fst (depth_first_traversal [(1::nat, [2, 1])] 1) = Inl KeyError"
  by (simp add: graph_eval)

end
